theory Spec2Isabelle
  imports Main "HOL-Library.Word"
begin

section \<open>The cooperative scheduler of new_worm/scheduler.c\<close>

text \<open>
  The scheduler keeps three globals: \<open>current_task\<close>, \<open>num_tasks\<close> and the array
  \<open>tasks[MAX_TASKS]\<close>. Every function of the file is modelled as a function on a record
  of these globals together with the two external services the code calls: the
  millisecond clock (\<open>time_ms\<close>, \<open>sleep_ms\<close>) and the terminal (\<open>getch\<close>).

  \<^item> \<open>int\<close> and \<open>task_t\<close> (``just an int'') are HOL integers; the table has 128 slots, so
    no count comes near the range of a C int before an access leaves the table.
  \<^item> \<open>size_t\<close> is a 64-bit word: \<open>time_ms() + ms\<close> wraps as in C.
  \<^item> An access \<open>tasks[i]\<close> with \<open>i\<close> outside \<open>0 .. MAX_TASKS - 1\<close> and a remainder by zero
    are undefined behaviour in C: the model stops with a \<open>fault\<close>.
  \<^item> The \<open>while (true)\<close> loop of \<open>schedule\<close> may spin forever: it is a partial function
    into \<open>option\<close>, where \<open>None\<close> is ``never returns''.
\<close>

subsection \<open>Constants\<close>

definition is_running :: int where "is_running = 1"
definition blocked_on_input :: int where "blocked_on_input = 2"
definition blocked_on_sleep :: int where "blocked_on_sleep = 3"
definition blocked_on_join :: int where "blocked_on_join = 4"
definition exited :: int where "exited = 5"
definition ready :: int where "ready = 6"

definition MAX_TASKS :: int where "MAX_TASKS = 128"

text \<open>Modelled from the spec: curses.h is not among the sources. \<open>ERR\<close> is the value by
  which the input probe signals that no key is available; curses defines it as -1.\<close>

definition ERR :: int where "ERR = - 1"

subsection \<open>Data\<close>

text \<open>scheduler.h is not among the sources: \<open>task_t\<close> is ``just an int'' by the comment in
  \<open>task_create\<close>; a \<open>task_fn_t\<close> is a pointer to the task's function, kept as an opaque
  number.\<close>

type_synonym task_t = int
type_synonym task_fn_t = nat
type_synonym size_t = "64 word"

text \<open>
  A \<open>ucontext_t\<close> is kept abstract. Static storage starts zeroed; \<open>makecontext\<close> yields a
  context that starts a function on a fresh stack; \<open>swapcontext\<close> saves the point of its
  own call, here named by the argument of the \<open>schedule\<close> call that made it.
\<close>

datatype entry = TaskFn task_fn_t | TaskExit

datatype ucontext = Zeroed | Start entry | YieldPoint task_t

record task_info =
  context' :: ucontext
  exit_context :: ucontext
  status :: int
  wake_time :: size_t
  join_thread :: task_t
  input :: int

record sched_state =
  current_task :: int
  num_tasks :: int
  tasks :: "int \<Rightarrow> task_info"
  clock :: size_t
  keys :: "nat list"

text \<open>Undefined behaviour: an access \<open>tasks[i]\<close> outside the table, with the globals as
  they are when it is attempted, or a remainder by zero.\<close>

datatype fault = OutOfBounds int sched_state | DivByZero

text \<open>How a call of \<open>schedule\<close> ends: it returns to its caller, or \<open>swapcontext\<close> activates
  another context.\<close>

datatype control = Return | Transfer ucontext

text \<open>One pass through the body of the \<open>while\<close> loop: it leaves by \<open>break\<close> or falls
  through to the increment.\<close>

datatype loop_step = Break sched_state | Next sched_state

definition in_table :: "int \<Rightarrow> bool" where
  "in_table i \<longleftrightarrow> 0 \<le> i \<and> i < MAX_TASKS"

text \<open>C's \<open>%\<close> truncates towards zero; HOL's \<open>mod\<close> rounds down.\<close>

definition c_mod :: "int \<Rightarrow> int \<Rightarrow> int" where
  "c_mod a b = sgn a * (\<bar>a\<bar> mod \<bar>b\<bar>)"

text \<open>The static initialisers: \<open>current_task = 0\<close>, \<open>num_tasks = 1\<close>, a zeroed table.\<close>

definition zero_task :: task_info where
  "zero_task = \<lparr>context' = Zeroed, exit_context = Zeroed, status = 0, wake_time = 0,
     join_thread = 0, input = 0\<rparr>"

definition initial :: "size_t \<Rightarrow> nat list \<Rightarrow> sched_state" where
  "initial now ks = \<lparr>current_task = 0, num_tasks = 1, tasks = (\<lambda>_. zero_task),
     clock = now, keys = ks\<rparr>"

subsection \<open>The external services\<close>

text \<open>Modelled from the spec: util.h and its implementation are not among the sources.
  \<open>time_ms\<close> reads the millisecond clock.\<close>

definition time_ms :: "sched_state \<Rightarrow> size_t" where
  "time_ms s = clock s"

text \<open>Modelled from the spec: \<open>sleep_ms\<close> of util.h, the pause used while polling; \<open>n\<close>
  milliseconds pass and nothing else changes. This is the ideal pause: a real one may last
  longer, and keys may arrive meanwhile.\<close>

definition sleep_ms :: "size_t \<Rightarrow> sched_state \<Rightarrow> sched_state" where
  "sleep_ms n s = s\<lparr>clock := clock s + n\<rparr>"

text \<open>Modelled from the spec: \<open>getch\<close> of curses in non-blocking mode, the input probe. It
  returns at once: \<open>ERR\<close>, consuming nothing, when no key is waiting, and otherwise the code
  of the oldest waiting key, consuming exactly that event. Key codes are not negative.\<close>

definition getch :: "sched_state \<Rightarrow> int \<times> sched_state" where
  "getch s = (case keys s of [] \<Rightarrow> (ERR, s) | k # ks \<Rightarrow> (int k, s\<lparr>keys := ks\<rparr>))"

subsection \<open>schedule\<close>

text \<open>The two assignments every selecting branch makes:
  \<open>tasks[index].status = is_running; current_task = index;\<close>\<close>

definition select_task :: "int \<Rightarrow> sched_state \<Rightarrow> sched_state" where
  "select_task index s =
     s\<lparr>tasks := (tasks s)(index := (tasks s index)\<lparr>status := is_running\<rparr>),
       current_task := index\<rparr>"

definition loop_body :: "task_t \<Rightarrow> int \<Rightarrow> sched_state \<Rightarrow> loop_step" where
  "loop_body t index s =
     (if status (tasks s index) = ready then Break (select_task index s)
      else if status (tasks s index) = blocked_on_sleep then
        (if wake_time (tasks s index) \<le> time_ms s then Break (select_task index s)
         else Next s)
      else if status (tasks s index) = blocked_on_join then
        (if t = join_thread (tasks s index) then Break (select_task index s)
         else Next s)
      else if status (tasks s index) = blocked_on_input then
        (case getch s of (res, s1) \<Rightarrow>
           if res \<noteq> ERR then
             Break ((select_task index s1)
               \<lparr>tasks := (tasks (select_task index s1))
                  (index := (tasks (select_task index s1) index)\<lparr>input := res\<rparr>)\<rparr>)
           else Next s1)
      else Next s)"

partial_function (option) scan ::
  "task_t \<Rightarrow> int \<Rightarrow> sched_state \<Rightarrow> (fault + int \<times> sched_state) option" where
  "scan t index s =
     (if \<not> in_table index then Some (Inl (OutOfBounds index s))
      else case loop_body t index s of
        Break s' \<Rightarrow> Some (Inr (index, s'))
      | Next s' \<Rightarrow>
          if num_tasks s' = 0 then Some (Inl DivByZero)
          else scan t (c_mod (index + 1) (num_tasks s')) (sleep_ms 1 s'))"

declare scan.simps [code]

text \<open>
  \<open>current_task_info\<close> is a copy of \<open>tasks[t]\<close> in the frame of \<open>schedule\<close>;
  \<open>swapcontext\<close> writes the caller's execution point into that copy and activates
  \<open>tasks[index].context\<close>. The table is not written after the loop.
\<close>

definition schedule :: "task_t \<Rightarrow> sched_state \<Rightarrow> (fault + control \<times> sched_state) option" where
  "schedule t s =
     (if \<not> in_table t then Some (Inl (OutOfBounds t s))
      else if num_tasks s = 0 then Some (Inl DivByZero)
      else
        let current_task_info = tasks s t in
        case scan t (c_mod (t + 1) (num_tasks s)) s of
          None \<Rightarrow> None
        | Some (Inl f) \<Rightarrow> Some (Inl f)
        | Some (Inr (index, s')) \<Rightarrow>
            if index = current_task s' then Some (Inr (Return, s'))
            else
              let current_task_info = current_task_info\<lparr>context' := YieldPoint t\<rparr> in
              Some (Inr (Transfer (context' (tasks s' index)), s')))"

subsection \<open>The public operations\<close>

definition scheduler_init :: "sched_state \<Rightarrow> sched_state" where
  "scheduler_init s = s\<lparr>tasks := (tasks s)(0 := (tasks s 0)\<lparr>status := is_running\<rparr>)\<rparr>"

definition task_exit :: "sched_state \<Rightarrow> (fault + control \<times> sched_state) option" where
  "task_exit s =
     (if \<not> in_table (current_task s) then Some (Inl (OutOfBounds (current_task s) s))
      else schedule (current_task s)
        (s\<lparr>tasks := (tasks s)(current_task s := (tasks s (current_task s))\<lparr>status := exited\<rparr>)\<rparr>))"

text \<open>\<open>task_create\<close> returns the handle it wrote to \<open>*handle\<close>. It claims the index and
  increments \<open>num_tasks\<close> before its first access to \<open>tasks[index]\<close>.\<close>

definition task_create :: "task_fn_t \<Rightarrow> sched_state \<Rightarrow> fault + task_t \<times> sched_state" where
  "task_create fn s =
     (let index = num_tasks s;
          s1 = s\<lparr>num_tasks := num_tasks s + 1\<rparr>
      in if \<not> in_table index then Inl (OutOfBounds index s1)
         else Inr (index,
           s1\<lparr>tasks := (tasks s1)(index := (tasks s1 index)
              \<lparr>context' := Start (TaskFn fn), exit_context := Start TaskExit,
               status := ready\<rparr>)\<rparr>))"

definition task_wait :: "task_t \<Rightarrow> sched_state \<Rightarrow> (fault + control \<times> sched_state) option" where
  "task_wait handle s =
     (if \<not> in_table (current_task s) then Some (Inl (OutOfBounds (current_task s) s))
      else schedule (current_task s)
        (s\<lparr>tasks := (tasks s)(current_task s := (tasks s (current_task s))
            \<lparr>status := blocked_on_join, join_thread := handle\<rparr>)\<rparr>))"

definition task_sleep :: "size_t \<Rightarrow> sched_state \<Rightarrow> (fault + control \<times> sched_state) option" where
  "task_sleep ms s =
     (if \<not> in_table (current_task s) then Some (Inl (OutOfBounds (current_task s) s))
      else schedule (current_task s)
        (s\<lparr>tasks := (tasks s)(current_task s := (tasks s (current_task s))
            \<lparr>status := blocked_on_sleep, wake_time := time_ms s + ms\<rparr>)\<rparr>))"

text \<open>\<open>task_readchar\<close> reaches its \<open>return tasks[current_task].input\<close> when \<open>schedule\<close>
  returns; \<open>current_task\<close> is read again at that point. When \<open>schedule\<close> transfers control
  instead, no value is returned by this step.\<close>

definition task_readchar :: "sched_state \<Rightarrow> (fault + int option \<times> sched_state) option" where
  "task_readchar s =
     (if \<not> in_table (current_task s) then Some (Inl (OutOfBounds (current_task s) s))
      else case schedule (current_task s)
          (s\<lparr>tasks := (tasks s)(current_task s := (tasks s (current_task s))
              \<lparr>status := blocked_on_input\<rparr>)\<rparr>) of
        None \<Rightarrow> None
      | Some (Inl f) \<Rightarrow> Some (Inl f)
      | Some (Inr (Return, s')) \<Rightarrow>
          if \<not> in_table (current_task s') then Some (Inl (OutOfBounds (current_task s') s'))
          else Some (Inr (Some (input (tasks s' (current_task s'))), s'))
      | Some (Inr (Transfer c, s')) \<Rightarrow> Some (Inr (None, s')))"

subsection \<open>Runs of the system\<close>

text \<open>
  What the running task and the outside world can do between two observable instants:
  the running task calls one of the public operations (or its function returns, which
  enters \<open>task_exit\<close>), time passes while it computes, or a key is pressed.
\<close>

datatype event =
    Create task_fn_t
  | Sleep size_t
  | Wait task_t
  | Readchar
  | Exit
  | Elapse size_t
  | KeyPress nat

definition after_call :: "(fault + 'a \<times> sched_state) option \<Rightarrow> (fault + sched_state) option" where
  "after_call r = (case r of None \<Rightarrow> None | Some (Inl f) \<Rightarrow> Some (Inl f)
     | Some (Inr (x, s')) \<Rightarrow> Some (Inr s'))"

fun perform :: "event \<Rightarrow> sched_state \<Rightarrow> (fault + sched_state) option" where
  "perform (Create fn) s = after_call (Some (task_create fn s))"
| "perform (Sleep ms) s = after_call (task_sleep ms s)"
| "perform (Wait h) s = after_call (task_wait h s)"
| "perform Readchar s = after_call (task_readchar s)"
| "perform Exit s = after_call (task_exit s)"
| "perform (Elapse n) s = Some (Inr (sleep_ms n s))"
| "perform (KeyPress k) s = Some (Inr (s\<lparr>keys := keys s @ [k]\<rparr>))"

fun run :: "event list \<Rightarrow> sched_state \<Rightarrow> (fault + sched_state) option" where
  "run [] s = Some (Inr s)"
| "run (e # es) s = (case perform e s of None \<Rightarrow> None | Some (Inl f) \<Rightarrow> Some (Inl f)
     | Some (Inr s') \<Rightarrow> run es s')"

subsection \<open>Notions used in the statements\<close>

text \<open>The \<open>k\<close>-th slot of the ring walk that \<open>schedule t\<close> makes, and the state in which
  the walk finds the system at that visit: every slot passed over costs one
  \<open>sleep_ms(1)\<close>.\<close>

definition ring_slot :: "sched_state \<Rightarrow> task_t \<Rightarrow> nat \<Rightarrow> int" where
  "ring_slot s t k = (t + 1 + int k) mod num_tasks s"

definition idle :: "nat \<Rightarrow> sched_state \<Rightarrow> sched_state" where
  "idle k s = s\<lparr>clock := clock s + of_nat k\<rparr>"

text \<open>Eligibility of slot \<open>i\<close> for a yield of task \<open>t\<close>, in the words of the spec: Ready; asleep
  with the deadline reached; joining exactly the yielding task; waiting for input with an
  input event available.\<close>

definition eligible :: "task_t \<Rightarrow> int \<Rightarrow> sched_state \<Rightarrow> bool" where
  "eligible t i s \<longleftrightarrow>
     status (tasks s i) = ready \<or>
     status (tasks s i) = blocked_on_sleep \<and> wake_time (tasks s i) \<le> time_ms s \<or>
     status (tasks s i) = blocked_on_join \<and> join_thread (tasks s i) = t \<or>
     status (tasks s i) = blocked_on_input \<and> keys s \<noteq> []"

text \<open>The state a selecting branch of the loop leaves when it picks slot \<open>i\<close>: the slot is
  marked running and becomes the current task; the branch for a slot waiting for input
  also consumes the oldest key and stores its code in the slot.\<close>

definition grant :: "int \<Rightarrow> sched_state \<Rightarrow> sched_state" where
  "grant i s =
     (if status (tasks s i) = blocked_on_input
      then s\<lparr>tasks := (tasks s)(i := (tasks s i)
               \<lparr>status := is_running, input := int (hd (keys s))\<rparr>),
             current_task := i, keys := tl (keys s)\<rparr>
      else s\<lparr>tasks := (tasks s)(i := (tasks s i)\<lparr>status := is_running\<rparr>),
             current_task := i\<rparr>)"

text \<open>The invariant of the globals: the count is within the table, the current task
  exists, and it is the one slot of the table whose status is \<open>is_running\<close>.\<close>

definition sched_inv :: "sched_state \<Rightarrow> bool" where
  "sched_inv s \<longleftrightarrow>
     1 \<le> num_tasks s \<and> num_tasks s \<le> MAX_TASKS \<and>
     0 \<le> current_task s \<and> current_task s < num_tasks s \<and>
     (\<forall>i. in_table i \<longrightarrow> (status (tasks s i) = is_running) = (i = current_task s))"

text \<open>The state a run of events leaves when the program starts at clock 0 with no key
  waiting and calls \<open>scheduler_init\<close> first (the untouched start state, should the run not
  complete). It names the concrete scenarios below.\<close>

definition state_after :: "event list \<Rightarrow> sched_state" where
  "state_after evs = (case run evs (scheduler_init (initial 0 [])) of
     Some (Inr s) \<Rightarrow> s | _ \<Rightarrow> initial 0 [])"

text \<open>A ring of four tasks at the moment task 3, inside \<open>task_readchar\<close>, enters
  \<open>schedule(3)\<close>: task 0 sleeps until 3 ms, task 1 joins a handle nobody holds, task 2
  sleeps with its deadline already reached, and no key is waiting.\<close>

definition ring_demo :: sched_state where
  "ring_demo =
     (let s = state_after [Create 1, Create 2, Create 3, Sleep 3, Wait 9, Sleep 0]
      in s\<lparr>tasks := (tasks s)(3 := (tasks s 3)\<lparr>status := blocked_on_input\<rparr>)\<rparr>)"

text \<open>Task \<open>a\<close> is blocked joining task \<open>h\<close>, and \<open>h\<close> has exited.\<close>

definition waits_on_exited :: "task_t \<Rightarrow> task_t \<Rightarrow> sched_state \<Rightarrow> bool" where
  "waits_on_exited a h s \<longleftrightarrow>
     0 \<le> h \<and> h < num_tasks s \<and> status (tasks s h) = exited \<and>
     0 \<le> a \<and> a < num_tasks s \<and>
     status (tasks s a) = blocked_on_join \<and> join_thread (tasks s a) = h"

text \<open>Task \<open>a\<close> exists and is blocked joining itself.\<close>

definition joins_itself :: "task_t \<Rightarrow> sched_state \<Rightarrow> bool" where
  "joins_itself a s \<longleftrightarrow>
     0 \<le> a \<and> a < num_tasks s \<and>
     status (tasks s a) = blocked_on_join \<and> join_thread (tasks s a) = a"


section \<open>Properties\<close>

lemmas status_codes = is_running_def blocked_on_input_def blocked_on_sleep_def
  blocked_on_join_def exited_def ready_def

subsection \<open>The loop of schedule\<close>

text \<open>One pass of the loop body selects the slot exactly when the slot is eligible, and
  otherwise changes nothing.\<close>

lemma c_mod_nonneg: "0 \<le> a \<Longrightarrow> 0 < b \<Longrightarrow> c_mod a b = a mod b"
  by (cases "a = 0") (simp_all add: c_mod_def)

lemma loop_body_eligible:
  "loop_body t i s = (if eligible t i s then Break (grant i s) else Next s)"
  by (auto simp: loop_body_def eligible_def getch_def ERR_def select_task_def grant_def ready_def
       blocked_on_sleep_def blocked_on_join_def blocked_on_input_def split: list.splits)

lemma idle_0 [simp]: "idle 0 s = s"
  by (simp add: idle_def)

lemma idle_sleep_ms: "idle k (sleep_ms 1 s) = idle (Suc k) s"
  by (simp add: idle_def sleep_ms_def add.assoc add.commute)

lemma num_tasks_idle [simp]: "num_tasks (idle k s) = num_tasks s"
  by (simp add: idle_def)

lemma num_tasks_sleep_ms [simp]: "num_tasks (sleep_ms n s) = num_tasks s"
  by (simp add: sleep_ms_def)

lemma walk_step:
  "0 < n \<Longrightarrow> ((i + 1) mod n + int k) mod n = (i + int (Suc k)) mod (n::int)"
proof -
  have "((i + 1) mod n + int k) mod n = (i + 1 + int k) mod n"
    by (rule mod_add_left_eq)
  then show ?thesis by (simp add: algebra_simps)
qed

lemma scan_first:
  assumes "0 \<le> i" "i < num_tasks s" "num_tasks s \<le> MAX_TASKS"
    and "eligible t ((i + int k) mod num_tasks s) (idle k s)"
    and "\<forall>k'<k. \<not> eligible t ((i + int k') mod num_tasks s) (idle k' s)"
  shows "scan t i s = Some (Inr ((i + int k) mod num_tasks s, grant ((i + int k) mod num_tasks s) (idle k s)))"
  using assms
proof (induction k arbitrary: i s)
  case 0
  then show ?case
    by (subst scan.simps) (simp add: in_table_def loop_body_eligible)
next
  case (Suc k)
  let ?n = "num_tasks s"
  let ?i' = "(i + 1) mod ?n"
  let ?s' = "sleep_ms 1 s"
  have n: "0 < ?n" using Suc.prems by simp
  have first: "\<not> eligible t i s"
    using Suc.prems(5) [rule_format, of 0] Suc.prems(1,2) by simp
  have step: "scan t i s = scan t ?i' ?s'"
    using Suc.prems(1,2,3) first n
    by (subst scan.simps) (simp add: in_table_def loop_body_eligible c_mod_nonneg)
  have w: "\<And>j. (?i' + int j) mod ?n = (i + int (Suc j)) mod ?n"
    using n by (rule walk_step)
  have "scan t ?i' ?s' = Some (Inr ((?i' + int k) mod num_tasks ?s',
      grant ((?i' + int k) mod num_tasks ?s') (idle k ?s')))"
  proof (rule Suc.IH)
    show "0 \<le> ?i'" using n by simp
    show "?i' < num_tasks ?s'" using n by simp
    show "num_tasks ?s' \<le> MAX_TASKS" using Suc.prems(3) by simp
    show "eligible t ((?i' + int k) mod num_tasks ?s') (idle k ?s')"
      using Suc.prems(4) by (simp add: w idle_sleep_ms)
    show "\<forall>k'<k. \<not> eligible t ((?i' + int k') mod num_tasks ?s') (idle k' ?s')"
    proof (intro allI impI)
      fix k' assume "k' < k"
      then have "Suc k' < Suc k" by simp
      with Suc.prems(5) have "\<not> eligible t ((i + int (Suc k')) mod ?n) (idle (Suc k') s)"
        by blast
      then show "\<not> eligible t ((?i' + int k') mod num_tasks ?s') (idle k' ?s')"
        unfolding w idle_sleep_ms num_tasks_sleep_ms .
    qed
  qed
  then show ?case
    by (simp add: step w idle_sleep_ms)
qed

lemma scan_sound:
  assumes "scan t i s = Some r"
  shows "0 \<le> i \<longrightarrow> i < num_tasks s \<longrightarrow> num_tasks s \<le> MAX_TASKS \<longrightarrow>
    (\<exists>k. r = Inr ((i + int k) mod num_tasks s, grant ((i + int k) mod num_tasks s) (idle k s)) \<and>
       eligible t ((i + int k) mod num_tasks s) (idle k s) \<and>
       (\<forall>k'<k. \<not> eligible t ((i + int k') mod num_tasks s) (idle k' s)))"
  using assms
proof (induction rule: scan.raw_induct [rotated 1, consumes 1])
  case (1 scan t i s r)
  show ?case
  proof (intro impI)
    assume b: "0 \<le> i" "i < num_tasks s" "num_tasks s \<le> MAX_TASKS"
    let ?n = "num_tasks s"
    have n: "0 < ?n" using b by simp
    show "\<exists>k. r = Inr ((i + int k) mod ?n, grant ((i + int k) mod ?n) (idle k s)) \<and>
       eligible t ((i + int k) mod ?n) (idle k s) \<and>
       (\<forall>k'<k. \<not> eligible t ((i + int k') mod ?n) (idle k' s))"
    proof (cases "eligible t i s")
      case True
      with 1(2) b have "r = Inr (i, grant i s)"
        by (simp add: in_table_def loop_body_eligible)
      with True b show ?thesis
        by (intro exI [of _ 0]) simp
    next
      case False
      let ?i' = "(i + 1) mod ?n"
      let ?s' = "sleep_ms 1 s"
      from 1(2) b False n have "scan t ?i' ?s' = Some r"
        by (simp add: in_table_def loop_body_eligible c_mod_nonneg)
      from 1(1) [OF this] n b(3) obtain k where
        k: "r = Inr ((?i' + int k) mod ?n, grant ((?i' + int k) mod ?n) (idle k ?s'))"
           "eligible t ((?i' + int k) mod ?n) (idle k ?s')"
           "\<forall>k'<k. \<not> eligible t ((?i' + int k') mod ?n) (idle k' ?s')"
        by auto
      have w: "\<And>j. (?i' + int j) mod ?n = (i + int (Suc j)) mod ?n"
        using n by (rule walk_step)
      have "\<forall>k'<Suc k. \<not> eligible t ((i + int k') mod ?n) (idle k' s)"
      proof (intro allI impI)
        fix k' assume "k' < Suc k"
        show "\<not> eligible t ((i + int k') mod ?n) (idle k' s)"
        proof (cases k')
          case 0
          with False b show ?thesis by simp
        next
          case (Suc j)
          with \<open>k' < Suc k\<close> k(3) have "\<not> eligible t ((?i' + int j) mod ?n) (idle j ?s')" by simp
          then show ?thesis by (simp add: w idle_sleep_ms Suc)
        qed
      qed
      with k(1,2) show ?thesis
        by (intro exI [of _ "Suc k"]) (simp add: w idle_sleep_ms)
    qed
  qed
qed


subsection \<open>Frame facts\<close>

lemma current_task_grant [simp]: "current_task (grant i s) = i"
  by (simp add: grant_def)

lemma num_tasks_grant [simp]: "num_tasks (grant i s) = num_tasks s"
  by (simp add: grant_def)

lemma clock_grant [simp]: "clock (grant i s) = clock s"
  by (simp add: grant_def)

lemma tasks_grant_other: "j \<noteq> i \<Longrightarrow> tasks (grant i s) j = tasks s j"
  by (simp add: grant_def)

lemma status_grant_self [simp]: "status (tasks (grant i s) i) = is_running"
  by (simp add: grant_def)

lemma join_thread_grant [simp]: "join_thread (tasks (grant i s) j) = join_thread (tasks s j)"
  by (simp add: grant_def)

lemma wake_time_grant [simp]: "wake_time (tasks (grant i s) j) = wake_time (tasks s j)"
  by (simp add: grant_def)

lemma context_grant [simp]: "context' (tasks (grant i s) j) = context' (tasks s j)"
  by (simp add: grant_def)

lemma tasks_idle [simp]: "tasks (idle k s) = tasks s"
  by (simp add: idle_def)

lemma current_task_idle [simp]: "current_task (idle k s) = current_task s"
  by (simp add: idle_def)

lemma keys_idle [simp]: "keys (idle k s) = keys s"
  by (simp add: idle_def)

lemma clock_idle [simp]: "clock (idle k s) = clock s + of_nat k"
  by (simp add: idle_def)

lemma time_ms_idle [simp]: "time_ms (idle k s) = time_ms s + of_nat k"
  by (simp add: idle_def time_ms_def)

lemma scan_selected_is_current:
  assumes "scan t i s = Some r"
  shows "\<forall>j s'. r = Inr (j, s') \<longrightarrow> current_task s' = j"
  using assms
proof (induction rule: scan.raw_induct [rotated 1, consumes 1])
  case (1 scan t i s r)
  then show ?case
    by (auto simp: loop_body_eligible split: if_splits)
qed

lemma scan_current: "scan t i s = Some (Inr (j, s')) \<Longrightarrow> current_task s' = j"
  using scan_selected_is_current by blast

lemma schedule_returns:
  assumes "schedule t s = Some (Inr (c, s'))"
  shows "c = Return"
  using assms
  by (auto simp: schedule_def Let_def scan_current split: if_splits option.splits sum.splits)

lemma ring_slot_bounds: "0 < num_tasks s \<Longrightarrow> 0 \<le> ring_slot s t k \<and> ring_slot s t k < num_tasks s"
  by (simp add: ring_slot_def)

lemma ring_slot_walk:
  "0 < num_tasks s \<Longrightarrow> ((t + 1) mod num_tasks s + int k) mod num_tasks s = ring_slot s t k"
  unfolding ring_slot_def by (rule mod_add_left_eq)

lemma schedule_first:
  assumes "in_table t" "0 < num_tasks s" "num_tasks s \<le> MAX_TASKS"
    and "eligible t (ring_slot s t k) (idle k s)"
    and "\<forall>k'<k. \<not> eligible t (ring_slot s t k') (idle k' s)"
  shows "schedule t s = Some (Inr (Return, grant (ring_slot s t k) (idle k s)))"
proof -
  let ?n = "num_tasks s"
  let ?i = "(t + 1) mod ?n"
  have t0: "0 \<le> t + 1" using assms(1) by (simp add: in_table_def)
  have "scan t ?i s = Some (Inr ((?i + int k) mod ?n, grant ((?i + int k) mod ?n) (idle k s)))"
    using assms by (intro scan_first) (simp_all add: ring_slot_walk)
  then show ?thesis
    using assms(1,2) t0 by (simp add: schedule_def c_mod_nonneg ring_slot_walk)
qed

lemma schedule_sound:
  assumes "in_table t" "0 < num_tasks s" "num_tasks s \<le> MAX_TASKS"
    and "schedule t s = Some r"
  shows "\<exists>k. r = Inr (Return, grant (ring_slot s t k) (idle k s)) \<and>
           eligible t (ring_slot s t k) (idle k s) \<and>
           (\<forall>k'<k. \<not> eligible t (ring_slot s t k') (idle k' s))"
proof -
  let ?n = "num_tasks s"
  let ?i = "(t + 1) mod ?n"
  have t0: "0 \<le> t + 1" using assms(1) by (simp add: in_table_def)
  from assms obtain r0 where r0: "scan t ?i s = Some r0"
    by (auto simp: schedule_def c_mod_nonneg t0 split: option.splits)
  have "0 \<le> ?i" "?i < ?n" using assms(2) by simp_all
  with scan_sound [OF r0] assms(3) obtain k where
    k: "r0 = Inr ((?i + int k) mod ?n, grant ((?i + int k) mod ?n) (idle k s))"
       "eligible t ((?i + int k) mod ?n) (idle k s)"
       "\<forall>k'<k. \<not> eligible t ((?i + int k') mod ?n) (idle k' s)"
    by blast
  from assms(1,2,4) r0 k(1) t0 have "r = Inr (Return, grant (ring_slot s t k) (idle k s))"
    by (simp add: schedule_def c_mod_nonneg ring_slot_walk)
  with k(2,3) assms(2) show ?thesis
    by (auto simp: ring_slot_walk)
qed


subsection \<open>The invariant is kept by every operation\<close>

lemma schedule_yield:
  assumes "in_table t" "0 < num_tasks s" "num_tasks s \<le> MAX_TASKS"
    and "schedule t s = Some (Inr (c, s'))"
  shows "\<exists>k. c = Return \<and> s' = grant (ring_slot s t k) (idle k s) \<and>
           eligible t (ring_slot s t k) (idle k s) \<and>
           (\<forall>k'<k. \<not> eligible t (ring_slot s t k') (idle k' s))"
  using schedule_sound [OF assms] by auto

lemma schedule_no_fault:
  assumes "in_table t" "0 < num_tasks s" "num_tasks s \<le> MAX_TASKS"
  shows "schedule t s \<noteq> Some (Inl f)"
  using schedule_sound [OF assms, of "Inl f"] by auto

lemma sched_inv_in_table: "sched_inv s \<Longrightarrow> in_table (current_task s)"
  by (simp add: sched_inv_def in_table_def)

lemma grant_inv:
  assumes "1 \<le> num_tasks s" "num_tasks s \<le> MAX_TASKS" "0 \<le> j" "j < num_tasks s"
    and "\<forall>i. in_table i \<longrightarrow> status (tasks s i) \<noteq> is_running"
  shows "sched_inv (grant j (idle k s))"
  unfolding sched_inv_def
proof (intro conjI allI impI)
  fix i assume "in_table i"
  show "(status (tasks (grant j (idle k s)) i) = is_running) = (i = current_task (grant j (idle k s)))"
  proof (cases "i = j")
    case True
    then show ?thesis by simp
  next
    case False
    with assms(5) \<open>in_table i\<close> show ?thesis by (simp add: tasks_grant_other)
  qed
qed (use assms in simp_all)

lemma yield_inv:
  assumes "1 \<le> num_tasks s" "num_tasks s \<le> MAX_TASKS" "in_table t"
    and "\<forall>i. in_table i \<longrightarrow> status (tasks s i) \<noteq> is_running"
    and "schedule t s = Some (Inr (c, s'))"
  shows "sched_inv s'"
proof -
  have n: "0 < num_tasks s" using assms(1) by simp
  from schedule_yield [OF assms(3) n assms(2) assms(5)] obtain k where
    "s' = grant (ring_slot s t k) (idle k s)" by blast
  with grant_inv [OF assms(1,2) _ _ assms(4)] ring_slot_bounds [OF n, of t k] show ?thesis
    by simp
qed

lemma task_exit_inv:
  assumes "sched_inv s" "task_exit s = Some (Inr (c, s'))"
  shows "sched_inv s'"
proof (rule yield_inv)
  show "schedule (current_task s)
      (s\<lparr>tasks := (tasks s)(current_task s := (tasks s (current_task s))\<lparr>status := exited\<rparr>)\<rparr>)
    = Some (Inr (c, s'))"
    using assms by (simp add: task_exit_def sched_inv_in_table)
qed (use assms(1) in \<open>auto simp: sched_inv_def in_table_def status_codes\<close>)

lemma task_wait_inv:
  assumes "sched_inv s" "task_wait h s = Some (Inr (c, s'))"
  shows "sched_inv s'"
proof (rule yield_inv)
  show "schedule (current_task s)
      (s\<lparr>tasks := (tasks s)(current_task s := (tasks s (current_task s))
          \<lparr>status := blocked_on_join, join_thread := h\<rparr>)\<rparr>)
    = Some (Inr (c, s'))"
    using assms by (simp add: task_wait_def sched_inv_in_table)
qed (use assms(1) in \<open>auto simp: sched_inv_def in_table_def status_codes\<close>)

lemma task_sleep_inv:
  assumes "sched_inv s" "task_sleep ms s = Some (Inr (c, s'))"
  shows "sched_inv s'"
proof (rule yield_inv)
  show "schedule (current_task s)
      (s\<lparr>tasks := (tasks s)(current_task s := (tasks s (current_task s))
          \<lparr>status := blocked_on_sleep, wake_time := time_ms s + ms\<rparr>)\<rparr>)
    = Some (Inr (c, s'))"
    using assms by (simp add: task_sleep_def sched_inv_in_table)
qed (use assms(1) in \<open>auto simp: sched_inv_def in_table_def status_codes\<close>)

lemma task_readchar_inv:
  assumes "sched_inv s" "task_readchar s = Some (Inr (v, s'))"
  shows "sched_inv s'"
proof -
  from assms obtain c where
    "schedule (current_task s)
      (s\<lparr>tasks := (tasks s)(current_task s := (tasks s (current_task s))
          \<lparr>status := blocked_on_input\<rparr>)\<rparr>)
    = Some (Inr (c, s'))"
    by (auto simp: task_readchar_def sched_inv_in_table
        split: option.splits sum.splits control.splits if_splits)
  then show ?thesis
    by (rule yield_inv [rotated 4])
      (use assms(1) in \<open>auto simp: sched_inv_def in_table_def status_codes\<close>)
qed

lemma task_create_inv:
  assumes "sched_inv s" "task_create fn s = Inr (h, s')"
  shows "sched_inv s'"
  using assms
  by (auto simp: task_create_def sched_inv_def in_table_def Let_def status_codes split: if_splits)

lemma perform_inv:
  assumes "sched_inv s" "perform e s = Some (Inr s')"
  shows "sched_inv s'"
proof (cases e)
  case (Create fn)
  with assms show ?thesis
    by (auto simp: after_call_def split: sum.splits dest: task_create_inv)
next
  case (Sleep ms)
  with assms show ?thesis
    by (auto simp: after_call_def split: option.splits sum.splits dest: task_sleep_inv)
next
  case (Wait h)
  with assms show ?thesis
    by (auto simp: after_call_def split: option.splits sum.splits dest: task_wait_inv)
next
  case Readchar
  with assms show ?thesis
    by (auto simp: after_call_def split: option.splits sum.splits dest: task_readchar_inv)
next
  case Exit
  with assms show ?thesis
    by (auto simp: after_call_def split: option.splits sum.splits dest: task_exit_inv)
next
  case (Elapse n)
  with assms show ?thesis
    by (auto simp: sched_inv_def sleep_ms_def)
next
  case (KeyPress k)
  with assms show ?thesis
    by (auto simp: sched_inv_def)
qed

lemma run_inv:
  "sched_inv s \<Longrightarrow> run evs s = Some (Inr s') \<Longrightarrow> sched_inv s'"
proof (induction evs arbitrary: s)
  case Nil
  then show ?case by simp
next
  case (Cons e evs)
  then show ?case
    by (auto split: option.splits sum.splits dest: perform_inv)
qed

lemma init_inv: "sched_inv (scheduler_init (initial now ks))"
  by (simp add: sched_inv_def scheduler_init_def initial_def zero_task_def in_table_def
      MAX_TASKS_def status_codes)

text \<open>What one event can do to a state that satisfies the invariant: a successful
  \<open>task_create\<close>, an event of the outside world, or a yield of the current task that ends
  with some eligible slot selected.\<close>

lemma perform_cases [consumes 2, case_names create env yield]:
  assumes "sched_inv s" "perform e s = Some (Inr s')"
  obtains
    (create) fn where "e = Create fn" "num_tasks s < MAX_TASKS"
      "num_tasks s' = num_tasks s + 1" "current_task s' = current_task s"
      "clock s' = clock s" "keys s' = keys s"
      "status (tasks s' (num_tasks s)) = ready"
      "\<And>i. i \<noteq> num_tasks s \<Longrightarrow> tasks s' i = tasks s i"
  | (env) "tasks s' = tasks s" "current_task s' = current_task s" "num_tasks s' = num_tasks s"
  | (yield) r j k where "status r \<noteq> is_running"
      "s' = grant j (idle k (s\<lparr>tasks := (tasks s)(current_task s := r)\<rparr>))"
      "eligible (current_task s) j (idle k (s\<lparr>tasks := (tasks s)(current_task s := r)\<rparr>))"
      "0 \<le> j" "j < num_tasks s"
proof -
  let ?t = "current_task s"
  have t: "in_table ?t" using assms(1) by (rule sched_inv_in_table)
  have n: "0 < num_tasks s" "num_tasks s \<le> MAX_TASKS"
    using assms(1) by (simp_all add: sched_inv_def)
  have Y: thesis
    if "schedule ?t (s\<lparr>tasks := (tasks s)(?t := r)\<rparr>) = Some (Inr (c, s'))"
      and "status r \<noteq> is_running" for r c
  proof -
    let ?s0 = "s\<lparr>tasks := (tasks s)(?t := r)\<rparr>"
    from schedule_yield [OF t _ _ that(1)] n obtain k where
      k: "s' = grant (ring_slot ?s0 ?t k) (idle k ?s0)"
         "eligible ?t (ring_slot ?s0 ?t k) (idle k ?s0)"
      by auto
    have "0 \<le> ring_slot ?s0 ?t k \<and> ring_slot ?s0 ?t k < num_tasks s"
      using ring_slot_bounds [of ?s0 ?t k] n by simp
    with k that(2) show thesis by (intro yield [of r "ring_slot ?s0 ?t k" k]) simp_all
  qed
  show thesis
  proof (cases e)
    case (Create fn)
    with assms(2) show thesis
      by (intro create [of fn])
        (auto simp: after_call_def task_create_def Let_def in_table_def split: if_splits)
  next
    case (Sleep ms)
    with assms(2) t obtain c where
      "schedule ?t (s\<lparr>tasks := (tasks s)(?t := (tasks s ?t)
          \<lparr>status := blocked_on_sleep, wake_time := time_ms s + ms\<rparr>)\<rparr>) = Some (Inr (c, s'))"
      by (auto simp: after_call_def task_sleep_def split: option.splits sum.splits)
    then show thesis by (rule Y) (simp add: status_codes)
  next
    case (Wait h)
    with assms(2) t obtain c where
      "schedule ?t (s\<lparr>tasks := (tasks s)(?t := (tasks s ?t)
          \<lparr>status := blocked_on_join, join_thread := h\<rparr>)\<rparr>) = Some (Inr (c, s'))"
      by (auto simp: after_call_def task_wait_def split: option.splits sum.splits)
    then show thesis by (rule Y) (simp add: status_codes)
  next
    case Readchar
    with assms(2) t obtain c where
      "schedule ?t (s\<lparr>tasks := (tasks s)(?t := (tasks s ?t)
          \<lparr>status := blocked_on_input\<rparr>)\<rparr>) = Some (Inr (c, s'))"
      by (auto simp: after_call_def task_readchar_def
          split: option.splits sum.splits control.splits if_splits)
    then show thesis by (rule Y) (simp add: status_codes)
  next
    case Exit
    with assms(2) t obtain c where
      "schedule ?t (s\<lparr>tasks := (tasks s)(?t := (tasks s ?t)\<lparr>status := exited\<rparr>)\<rparr>)
         = Some (Inr (c, s'))"
      by (auto simp: after_call_def task_exit_def split: option.splits sum.splits)
    then show thesis by (rule Y) (simp add: status_codes)
  next
    case (Elapse d)
    with assms(2) show thesis by (intro env) (auto simp: sleep_ms_def)
  next
    case (KeyPress c)
    with assms(2) show thesis by (intro env) auto
  qed
qed

subsection \<open>Bounded scans and concrete runs\<close>

lemma schedule_bounded:
  assumes "in_table t" "0 < num_tasks s" "num_tasks s \<le> MAX_TASKS"
    and "eligible t (ring_slot s t k0) (idle k0 s)"
  shows "\<exists>k\<le>k0. schedule t s = Some (Inr (Return, grant (ring_slot s t k) (idle k s))) \<and>
           eligible t (ring_slot s t k) (idle k s) \<and>
           (\<forall>k'<k. \<not> eligible t (ring_slot s t k') (idle k' s))"
proof -
  define k where "k = (LEAST k. eligible t (ring_slot s t k) (idle k s))"
  have e: "eligible t (ring_slot s t k) (idle k s)"
    unfolding k_def using assms(4) by (rule LeastI)
  have le: "k \<le> k0"
    unfolding k_def using assms(4) by (rule Least_le)
  have first: "\<forall>k'<k. \<not> eligible t (ring_slot s t k') (idle k' s)"
    unfolding k_def using not_less_Least by blast
  from schedule_first [OF assms(1-3) e first] e le first show ?thesis by blast
qed

lemma ring_slot_full_turn:
  assumes "0 \<le> t" "t < num_tasks s"
  shows "ring_slot s t (nat (num_tasks s - 1)) = t"
proof -
  have "t + 1 + int (nat (num_tasks s - 1)) = t + num_tasks s"
    using assms by simp
  then show ?thesis
    using assms by (simp add: ring_slot_def)
qed


lemma state_after_run:
  assumes "case run evs (scheduler_init (initial 0 [])) of Some (Inr s') \<Rightarrow> True | _ \<Rightarrow> False"
  shows "run evs (scheduler_init (initial 0 [])) = Some (Inr (state_after evs))"
  using assms by (auto simp: state_after_def split: option.splits sum.splits)

lemma state_after_inv:
  assumes "case run evs (scheduler_init (initial 0 [])) of Some (Inr s') \<Rightarrow> True | _ \<Rightarrow> False"
  shows "sched_inv (state_after evs)"
  using init_inv state_after_run [OF assms] by (rule run_inv)

subsection \<open>Slots that a scan cannot select\<close>

lemma not_eligible_exited: "status (tasks s i) = exited \<Longrightarrow> \<not> eligible t i s"
  by (simp add: eligible_def status_codes)

lemma eligible_join:
  "status (tasks s i) = blocked_on_join \<Longrightarrow> eligible t i s \<longleftrightarrow> join_thread (tasks s i) = t"
  by (simp add: eligible_def status_codes)


lemma sched_inv_current_running: "sched_inv s \<Longrightarrow> status (tasks s (current_task s)) = is_running"
  by (simp add: sched_inv_def in_table_def)

lemma waits_on_exited_step:
  assumes "sched_inv s" "waits_on_exited a h s" "perform e s = Some (Inr s')"
  shows "waits_on_exited a h s'"
  using assms(1,3)
proof (cases rule: perform_cases)
  case (create fn)
  with assms(2) show ?thesis by (simp add: waits_on_exited_def)
next
  case env
  with assms(2) show ?thesis by (simp add: waits_on_exited_def)
next
  case (yield r j k)
  let ?t = "current_task s"
  let ?s0 = "s\<lparr>tasks := (tasks s)(?t := r)\<rparr>"
  have run: "status (tasks s ?t) = is_running" using assms(1) by (rule sched_inv_current_running)
  from assms(2) have w: "status (tasks s h) = exited" "status (tasks s a) = blocked_on_join"
      "join_thread (tasks s a) = h"
    by (simp_all add: waits_on_exited_def)
  from run w have ne: "h \<noteq> ?t" "a \<noteq> ?t" by (auto simp: status_codes)
  have "\<not> eligible ?t h (idle k ?s0)"
    using ne w by (simp add: not_eligible_exited)
  moreover have "\<not> eligible ?t a (idle k ?s0)"
    using ne w by (simp add: eligible_join)
  ultimately have j: "j \<noteq> h" "j \<noteq> a" using yield(3) by auto
  then have "tasks s' h = tasks s h" "tasks s' a = tasks s a"
    using ne by (simp_all add: yield(2) tasks_grant_other)
  with assms(2) show ?thesis by (simp add: waits_on_exited_def yield(2))
qed

lemma waits_on_exited_run:
  assumes "sched_inv s" "waits_on_exited a h s" "run evs s = Some (Inr s')"
  shows "waits_on_exited a h s' \<and> sched_inv s'"
  using assms
proof (induction evs arbitrary: s)
  case Nil
  then show ?case by simp
next
  case (Cons e evs)
  from Cons.prems(3) obtain s1 where
    s1: "perform e s = Some (Inr s1)" "run evs s1 = Some (Inr s')"
    by (auto split: option.splits sum.splits)
  have "sched_inv s1" using Cons.prems(1) s1(1) by (rule perform_inv)
  moreover have "waits_on_exited a h s1"
    using Cons.prems(1,2) s1(1) by (rule waits_on_exited_step)
  ultimately show ?case using s1(2) by (rule Cons.IH)
qed

lemma task_wait_exited:
  assumes "sched_inv s" "0 \<le> h" "h < num_tasks s" "status (tasks s h) = exited"
    and "task_wait h s = Some (Inr (c, s1))"
  shows "waits_on_exited (current_task s) h s1 \<and> sched_inv s1"
proof -
  let ?t = "current_task s"
  let ?s0 = "s\<lparr>tasks := (tasks s)(?t := (tasks s ?t)
      \<lparr>status := blocked_on_join, join_thread := h\<rparr>)\<rparr>"
  have t: "in_table ?t" using assms(1) by (rule sched_inv_in_table)
  have b: "0 < num_tasks ?s0" "num_tasks ?s0 \<le> MAX_TASKS" "0 \<le> ?t" "?t < num_tasks s"
    using assms(1) by (simp_all add: sched_inv_def)
  have "status (tasks s ?t) = is_running" using assms(1) by (rule sched_inv_current_running)
  with assms(4) have ne: "h \<noteq> ?t" by (auto simp: status_codes)
  from assms(5) t have "schedule ?t ?s0 = Some (Inr (c, s1))" by (simp add: task_wait_def)
  from schedule_yield [OF t b(1,2) this] obtain k where
    k: "s1 = grant (ring_slot ?s0 ?t k) (idle k ?s0)"
       "eligible ?t (ring_slot ?s0 ?t k) (idle k ?s0)"
    by blast
  let ?j = "ring_slot ?s0 ?t k"
  have "\<not> eligible ?t ?t (idle k ?s0)" using ne by (simp add: eligible_join)
  moreover have "\<not> eligible ?t h (idle k ?s0)"
    using ne assms(4) by (simp add: not_eligible_exited)
  ultimately have j: "?j \<noteq> ?t" "?j \<noteq> h" using k(2) by auto
  then have "tasks s1 ?t = tasks ?s0 ?t" "tasks s1 h = tasks ?s0 h"
    by (simp_all add: k(1) tasks_grant_other)
  with assms(2,3,4) b(3,4) ne have "waits_on_exited ?t h s1"
    by (simp add: waits_on_exited_def k(1))
  moreover have "sched_inv s1" using assms(1,5) by (rule task_wait_inv)
  ultimately show ?thesis ..
qed

lemma call_then_run_completes:
  assumes "case x of Some (Inr (c, s1)) \<Rightarrow>
      (case f s1 of Some (Inr s2) \<Rightarrow> True | _ \<Rightarrow> False) | _ \<Rightarrow> False"
  shows "\<exists>c s1 s2. x = Some (Inr (c, s1)) \<and> f s1 = Some (Inr s2)"
proof (cases x)
  case None
  with assms show ?thesis by simp
next
  case (Some r)
  show ?thesis
  proof (cases r)
    case (Inl e)
    with Some assms show ?thesis by simp
  next
    case (Inr p)
    obtain c s1 where p: "p = (c, s1)" by (cases p)
    from assms Some Inr p have
      "case f s1 of Some (Inr s2) \<Rightarrow> True | _ \<Rightarrow> False" by simp
    then obtain s2 where "f s1 = Some (Inr s2)"
      by (cases "f s1") (auto split: sum.splits)
    with Some Inr p show ?thesis by blast
  qed
qed

subsection \<open>Sleeping slots\<close>

lemma time_ms_grant [simp]: "time_ms (grant i s) = time_ms s"
  by (simp add: time_ms_def)






subsection \<open>Yields move the scan towards a sleeper\<close>








subsection \<open>A task that joins itself\<close>

lemma eligible_prepared_other:
  "i \<noteq> t \<Longrightarrow>
   eligible t' i (idle k (s\<lparr>tasks := (tasks s)(t := r)\<rparr>)) = eligible t' i (idle k s)"
  by (simp add: eligible_def time_ms_def)

lemma ring_slot_self_iff:
  assumes "0 \<le> t" "t < num_tasks s" "int k < num_tasks s"
  shows "ring_slot s t k = t \<longleftrightarrow> int k = num_tasks s - 1"
proof
  assume "int k = num_tasks s - 1"
  then have "k = nat (num_tasks s - 1)" by simp
  then show "ring_slot s t k = t" using ring_slot_full_turn [OF assms(1,2)] by simp
next
  assume eq: "ring_slot s t k = t"
  let ?n = "num_tasks s"
  show "int k = ?n - 1"
  proof (rule ccontr)
    assume "int k \<noteq> ?n - 1"
    with assms(3) have lt: "int k + 1 < ?n" by simp
    show False
    proof (cases "t + 1 + int k < ?n")
      case True
      with assms(1) have "(t + 1 + int k) mod ?n = t + 1 + int k" by simp
      with eq show False by (simp add: ring_slot_def)
    next
      case False
      then have ge: "?n \<le> t + 1 + int k" by simp
      define x where "x = t + 1 + int k - ?n"
      have x: "0 \<le> x" "x < ?n" using ge assms(2) lt by (simp_all add: x_def)
      have "(t + 1 + int k) mod ?n = (x + ?n) mod ?n" by (simp add: x_def)
      also have "\<dots> = x mod ?n" by (simp only: mod_add_self2)
      also have "\<dots> = x" using x by simp
      finally show False using eq lt by (simp add: ring_slot_def x_def)
    qed
  qed
qed

lemma joins_itself_step:
  assumes "sched_inv s" "joins_itself a s" "perform e s = Some (Inr s')"
  shows "joins_itself a s'"
  using assms(1,3)
proof (cases rule: perform_cases)
  case (create fn)
  with assms(2) show ?thesis by (simp add: joins_itself_def)
next
  case env
  with assms(2) show ?thesis by (simp add: joins_itself_def)
next
  case (yield r j k)
  let ?t = "current_task s"
  let ?s0 = "s\<lparr>tasks := (tasks s)(?t := r)\<rparr>"
  have "status (tasks s ?t) = is_running" using assms(1) by (rule sched_inv_current_running)
  with assms(2) have ne: "a \<noteq> ?t" by (auto simp: joins_itself_def status_codes)
  then have "\<not> eligible ?t a (idle k ?s0)"
    using assms(2) by (simp add: eligible_join joins_itself_def)
  with yield(3) have "j \<noteq> a" by auto
  with ne have "tasks s' a = tasks s a" by (simp add: yield(2) tasks_grant_other)
  with assms(2) show ?thesis by (simp add: joins_itself_def yield(2))
qed

lemma joins_itself_run:
  assumes "sched_inv s" "joins_itself a s" "run evs s = Some (Inr s')"
  shows "joins_itself a s' \<and> sched_inv s'"
  using assms
proof (induction evs arbitrary: s)
  case Nil
  then show ?case by simp
next
  case (Cons e evs)
  from Cons.prems(3) obtain s1 where
    s1: "perform e s = Some (Inr s1)" "run evs s1 = Some (Inr s')"
    by (auto split: option.splits sum.splits)
  have "sched_inv s1" using Cons.prems(1) s1(1) by (rule perform_inv)
  moreover have "joins_itself a s1"
    using Cons.prems(1,2) s1(1) by (rule joins_itself_step)
  ultimately show ?case using s1(2) by (rule Cons.IH)
qed

lemma self_join_scan:
  assumes "sched_inv s"
  shows "\<exists>c k s'. task_wait (current_task s) s = Some (Inr (c, s')) \<and>
      int k < num_tasks s \<and>
      current_task s' = ring_slot s (current_task s) k \<and>
      (\<forall>k'<k. \<not> eligible (current_task s) (ring_slot s (current_task s) k') (idle k' s)) \<and>
      (current_task s' \<noteq> current_task s \<longrightarrow>
         eligible (current_task s) (current_task s') (idle k s) \<and>
         joins_itself (current_task s) s') \<and>
      (current_task s' = current_task s \<longleftrightarrow>
         (\<forall>k'. int k' < num_tasks s - 1 \<longrightarrow>
            \<not> eligible (current_task s) (ring_slot s (current_task s) k') (idle k' s)))"
proof -
  let ?t = "current_task s"
  let ?n = "num_tasks s"
  let ?s0 = "s\<lparr>tasks := (tasks s)(?t := (tasks s ?t)
      \<lparr>status := blocked_on_join, join_thread := ?t\<rparr>)\<rparr>"
  let ?k0 = "nat (?n - 1)"
  have t: "in_table ?t" using assms by (rule sched_inv_in_table)
  have b: "0 \<le> ?t" "?t < ?n" "0 < num_tasks ?s0" "num_tasks ?s0 \<le> MAX_TASKS"
    using assms by (simp_all add: sched_inv_def)
  have slot: "\<And>k. ring_slot ?s0 ?t k = ring_slot s ?t k"
    by (simp add: ring_slot_def)
  have turn: "ring_slot s ?t ?k0 = ?t"
    using ring_slot_full_turn [OF b(1,2)] .
  have "eligible ?t (ring_slot ?s0 ?t ?k0) (idle ?k0 ?s0)"
    unfolding slot turn by (simp add: eligible_def)
  from schedule_bounded [OF t b(3,4) this] obtain k where
    k: "k \<le> ?k0"
       "schedule ?t ?s0 = Some (Inr (Return, grant (ring_slot s ?t k) (idle k ?s0)))"
       "eligible ?t (ring_slot s ?t k) (idle k ?s0)"
       "\<forall>k'<k. \<not> eligible ?t (ring_slot s ?t k') (idle k' ?s0)"
    unfolding slot by blast
  let ?j = "ring_slot s ?t k"
  let ?s' = "grant ?j (idle k ?s0)"
  have kn: "int k < ?n" using k(1) b by simp
  have other: "ring_slot s ?t k' \<noteq> ?t" if "int k' < ?n - 1" for k'
    using ring_slot_self_iff [OF b(1,2), of k'] that by simp
  have transfer: "eligible ?t (ring_slot s ?t k') (idle k' ?s0) =
      eligible ?t (ring_slot s ?t k') (idle k' s)" if "int k' < ?n - 1" for k'
    using other [OF that] by (rule eligible_prepared_other)
  have wait: "task_wait ?t s = Some (Inr (Return, ?s'))"
    using t k(2) by (simp add: task_wait_def)
  have cur: "current_task ?s' = ?j" by simp
  have first: "\<forall>k'<k. \<not> eligible ?t (ring_slot s ?t k') (idle k' s)"
  proof (intro allI impI)
    fix k' assume "k' < k"
    with k(1) b have lt: "int k' < ?n - 1" by simp
    from k(4) \<open>k' < k\<close> have "\<not> eligible ?t (ring_slot s ?t k') (idle k' ?s0)" by simp
    then show "\<not> eligible ?t (ring_slot s ?t k') (idle k' s)"
      by (simp add: transfer [OF lt])
  qed
  have self_iff: "?j = ?t \<longleftrightarrow> int k = ?n - 1"
    using ring_slot_self_iff [OF b(1,2) kn] .
  have elsewhere: "eligible ?t ?j (idle k s) \<and> joins_itself ?t ?s'" if "?j \<noteq> ?t"
  proof
    from that self_iff kn have lt: "int k < ?n - 1" by simp
    with k(3) show "eligible ?t ?j (idle k s)" by (simp add: transfer)
    have "tasks ?s' ?t = tasks ?s0 ?t" using that by (simp add: tasks_grant_other)
    then show "joins_itself ?t ?s'" using b(1,2) by (simp add: joins_itself_def)
  qed
  have iff: "?j = ?t \<longleftrightarrow>
      (\<forall>k'. int k' < ?n - 1 \<longrightarrow> \<not> eligible ?t (ring_slot s ?t k') (idle k' s))"
  proof
    assume "?j = ?t"
    with self_iff have "int k = ?n - 1" by simp
    with first show "\<forall>k'. int k' < ?n - 1 \<longrightarrow> \<not> eligible ?t (ring_slot s ?t k') (idle k' s)"
      by simp
  next
    assume none: "\<forall>k'. int k' < ?n - 1 \<longrightarrow> \<not> eligible ?t (ring_slot s ?t k') (idle k' s)"
    show "?j = ?t"
    proof (rule ccontr)
      assume "?j \<noteq> ?t"
      with self_iff kn have lt: "int k < ?n - 1" by simp
      with elsewhere [OF \<open>?j \<noteq> ?t\<close>] none show False by blast
    qed
  qed
  show ?thesis
    apply (rule exI [of _ Return], rule exI [of _ k], rule exI [of _ ?s'])
    using wait kn first elsewhere iff by (simp only: cur) blast
qed

subsection \<open>Filling the table\<close>

lemma task_create_below_capacity:
  assumes "0 \<le> num_tasks s" "num_tasks s < MAX_TASKS"
  shows "\<exists>s'. task_create fn s = Inr (num_tasks s, s') \<and>
           num_tasks s' = num_tasks s + 1 \<and>
           status (tasks s' (num_tasks s)) = ready \<and>
           current_task s' = current_task s \<and>
           (\<forall>i. i \<noteq> num_tasks s \<longrightarrow> tasks s' i = tasks s i)"
  using assms by (simp add: task_create_def Let_def in_table_def)

lemma creates_run:
  assumes "0 \<le> num_tasks s" "num_tasks s + int (length fns) \<le> MAX_TASKS"
  shows "\<exists>s'. run (map Create fns) s = Some (Inr s') \<and>
           num_tasks s' = num_tasks s + int (length fns)"
  using assms
proof (induction fns arbitrary: s)
  case Nil
  then show ?case by simp
next
  case (Cons fn fns)
  from Cons.prems have "num_tasks s < MAX_TASKS" by simp
  with Cons.prems(1) obtain s1 where
    s1: "task_create fn s = Inr (num_tasks s, s1)" "num_tasks s1 = num_tasks s + 1"
    using task_create_below_capacity by blast
  from s1(2) Cons.prems have "0 \<le> num_tasks s1" "num_tasks s1 + int (length fns) \<le> MAX_TASKS"
    by simp_all
  from Cons.IH [OF this] obtain s' where
    "run (map Create fns) s1 = Some (Inr s')" "num_tasks s' = num_tasks s1 + int (length fns)"
    by blast
  with s1 show ?case by (simp add: after_call_def)
qed

text \<open>After \<open>scheduler_init\<close> and 127 calls of \<open>task_create\<close> the table holds 128 tasks.\<close>

lemma full_table_count: "num_tasks (state_after (replicate 127 (Create 0))) = 128"
  by code_simp

section \<open>The claims\<close>

subsection \<open>C1: the context switch\<close>

text \<open>
  C1 says that a call \<open>schedule(t)\<close> which selects an index other than the caller's saves
  the caller's execution point in the caller's record and transfers control to the selected
  task. The code does not: every selecting branch of the loop assigns
  \<open>current_task = index\<close> before \<open>break\<close>, so the test \<open>index == current_task\<close> after the loop
  always holds and \<open>swapcontext\<close> is never reached (lemma \<open>schedule_returns\<close>: no call of
  \<open>schedule\<close> ends in a transfer). Below, the main task creates task 1 and yields as
  \<open>task_wait(1)\<close> does: \<open>schedule(0)\<close> selects task 1, returns to its caller, and the record
  of task 0 still holds the zeroed context.
\<close>

theorem schedule_selects_other_task_without_switch:
  "case task_create 7 (scheduler_init (initial 0 [])) of
     Inl f \<Rightarrow> False
   | Inr (h, s1) \<Rightarrow>
       h = 1 \<and>
       (case schedule 0 (s1\<lparr>tasks := (tasks s1)(0 := (tasks s1 0)
                 \<lparr>status := blocked_on_join, join_thread := h\<rparr>)\<rparr>) of
          Some (Inr (c, s2)) \<Rightarrow>
            c = Return \<and> current_task s2 = 1 \<and> status (tasks s2 1) = is_running \<and>
            context' (tasks s2 0) = Zeroed \<and> context' (tasks s2 1) = Start (TaskFn 7)
        | _ \<Rightarrow> False)"
  by (simp add: task_create_def scheduler_init_def initial_def zero_task_def schedule_def
      scan.simps loop_body_def select_task_def in_table_def MAX_TASKS_def c_mod_def status_codes)

subsection \<open>C2: exactly one running task\<close>

text \<open>
  C2: after \<open>scheduler_init\<close>, at every observable instant, that is after every completed
  public operation (\<open>task_create\<close>, \<open>task_sleep\<close>, \<open>task_wait\<close>, \<open>task_readchar\<close>, the exit
  path) and whatever time passes or keys arrive in between, exactly one slot of the table
  has status \<open>is_running\<close>; it is the slot of \<open>current_task\<close>, an existing task.
\<close>

theorem exactly_one_running:
  assumes "run evs (scheduler_init (initial now ks)) = Some (Inr s)"
  shows "(\<exists>!i. in_table i \<and> status (tasks s i) = is_running) \<and>
         status (tasks s (current_task s)) = is_running \<and>
         0 \<le> current_task s \<and> current_task s < num_tasks s"
proof -
  have inv: "sched_inv s"
    using init_inv assms by (rule run_inv)
  then have cur: "in_table (current_task s)" by (rule sched_inv_in_table)
  from inv have one: "\<forall>i. in_table i \<longrightarrow> (status (tasks s i) = is_running) = (i = current_task s)"
    by (simp add: sched_inv_def)
  have "\<exists>!i. in_table i \<and> status (tasks s i) = is_running"
  proof (rule ex1I [of _ "current_task s"])
    show "in_table (current_task s) \<and> status (tasks s (current_task s)) = is_running"
      using cur one by simp
  next
    fix i assume "in_table i \<and> status (tasks s i) = is_running"
    with one show "i = current_task s" by blast
  qed
  with inv cur one show ?thesis by (simp add: sched_inv_def)
qed

theorem exactly_one_running_witness:
  "run [Create 1, Create 2, Wait 2, Sleep 5, KeyPress 120, Readchar, Elapse 10, Exit]
     (scheduler_init (initial 0 [])) =
     Some (Inr (state_after [Create 1, Create 2, Wait 2, Sleep 5, KeyPress 120, Readchar, Elapse 10, Exit])) \<and>
   (\<exists>!i. in_table i \<and>
      status (tasks (state_after [Create 1, Create 2, Wait 2, Sleep 5, KeyPress 120, Readchar, Elapse 10, Exit]) i)
        = is_running)"
proof -
  let ?evs = "[Create 1, Create 2, Wait 2, Sleep 5, KeyPress 120, Readchar, Elapse 10, Exit]"
  have "case run ?evs (scheduler_init (initial 0 [])) of Some (Inr s') \<Rightarrow> True | _ \<Rightarrow> False"
    by code_simp
  then have r: "run ?evs (scheduler_init (initial 0 [])) = Some (Inr (state_after ?evs))"
    by (auto simp: state_after_def split: option.splits sum.splits)
  from exactly_one_running [OF r] r show ?thesis by simp
qed

subsection \<open>C3: creating a task when the table is full\<close>

text \<open>
  C3 says that \<open>task_create\<close> on a full table fails with CapacityExceeded and leaves
  \<open>num_tasks\<close> unchanged. The code has no error return and no capacity check. As amended:
  every call made while the table holds fewer than \<open>MAX_TASKS\<close> tasks succeeds, hands out
  the handle \<open>num_tasks\<close>, increments \<open>num_tasks\<close> by one and leaves the new slot \<open>ready\<close>,
  all other slots untouched; so every sequence of calls that stays within \<open>MAX_TASKS\<close>
  tasks, the main task included, completes, and the table can be filled to exactly
  \<open>MAX_TASKS\<close> tasks. A call on a full table is outside what the code defines.
\<close>

theorem task_create_succeeds_below_capacity:
  "(0 \<le> num_tasks s \<and> num_tasks s < MAX_TASKS \<longrightarrow>
      (\<exists>s'. task_create fn s = Inr (num_tasks s, s') \<and>
         num_tasks s' = num_tasks s + 1 \<and>
         status (tasks s' (num_tasks s)) = ready \<and>
         current_task s' = current_task s \<and>
         (\<forall>i. i \<noteq> num_tasks s \<longrightarrow> tasks s' i = tasks s i))) \<and>
   (1 + int (length fns) \<le> MAX_TASKS \<longrightarrow>
      (\<exists>s'. run (map Create fns) (scheduler_init (initial now ks)) = Some (Inr s') \<and>
         num_tasks s' = 1 + int (length fns)))"
proof (intro conjI impI)
  assume "0 \<le> num_tasks s \<and> num_tasks s < MAX_TASKS"
  then show "\<exists>s'. task_create fn s = Inr (num_tasks s, s') \<and>
         num_tasks s' = num_tasks s + 1 \<and>
         status (tasks s' (num_tasks s)) = ready \<and>
         current_task s' = current_task s \<and>
         (\<forall>i. i \<noteq> num_tasks s \<longrightarrow> tasks s' i = tasks s i)"
    using task_create_below_capacity by blast
next
  let ?s0 = "scheduler_init (initial now ks)"
  assume "1 + int (length fns) \<le> MAX_TASKS"
  moreover have "num_tasks ?s0 = 1" by (simp add: scheduler_init_def initial_def)
  ultimately show "\<exists>s'. run (map Create fns) ?s0 = Some (Inr s') \<and>
      num_tasks s' = 1 + int (length fns)"
    using creates_run [of ?s0 fns] by simp
qed

text \<open>The call on the full table is not rejected: \<open>num_tasks\<close> has become 129 when the call
  accesses \<open>tasks[128]\<close>, one slot past the table.\<close>

theorem task_create_at_capacity_counterexample:
  "num_tasks (state_after (replicate 127 (Create 0))) = MAX_TASKS \<and>
   task_create 0 (state_after (replicate 127 (Create 0))) =
     Inl (OutOfBounds 128 ((state_after (replicate 127 (Create 0)))\<lparr>num_tasks := 129\<rparr>))"
  by (simp add: task_create_def Let_def in_table_def MAX_TASKS_def full_table_count)

theorem task_create_succeeds_below_capacity_witness:
  "0 \<le> num_tasks (scheduler_init (initial 0 [])) \<and>
   num_tasks (scheduler_init (initial 0 [])) < MAX_TASKS \<and>
   (\<exists>s'. task_create 7 (scheduler_init (initial 0 [])) = Inr (1, s') \<and>
      num_tasks s' = 2 \<and> status (tasks s' 1) = ready \<and> current_task s' = 0) \<and>
   1 + int (length (replicate 127 (0::nat))) \<le> MAX_TASKS \<and>
   (\<exists>s'. run (map Create (replicate 127 0)) (scheduler_init (initial 0 [])) = Some (Inr s') \<and>
      num_tasks s' = MAX_TASKS)"
proof -
  let ?A = "scheduler_init (initial 0 [])"
  have a: "num_tasks ?A = 1" "current_task ?A = 0"
    by (simp_all add: scheduler_init_def initial_def)
  then have ha: "0 \<le> num_tasks ?A \<and> num_tasks ?A < MAX_TASKS"
    by (simp add: MAX_TASKS_def)
  have hb: "1 + int (length (replicate 127 (0::nat))) \<le> MAX_TASKS"
    by (simp add: MAX_TASKS_def)
  note T1 = task_create_succeeds_below_capacity
    [of ?A 7, THEN conjunct1, rule_format, OF ha]
  note T2 = task_create_succeeds_below_capacity
    [where fns = "replicate 127 0" and now = 0 and ks = "[]",
      THEN conjunct2, rule_format, OF hb]
  from T1 a have "\<exists>s'. task_create 7 ?A = Inr (1, s') \<and>
      num_tasks s' = 2 \<and> status (tasks s' 1) = ready \<and> current_task s' = 0"
    by auto
  moreover from T2 have "\<exists>s'. run (map Create (replicate 127 0)) ?A = Some (Inr s') \<and>
      num_tasks s' = MAX_TASKS"
    by (simp add: MAX_TASKS_def)
  ultimately show ?thesis using ha hb by blast
qed

subsection \<open>C4: join ordering\<close>

text \<open>
  C4 says that a task \<open>A\<close> which called \<open>task_wait(B)\<close> is not selected again before \<open>B\<close> has
  status \<open>exited\<close>. In the code the branch for \<open>blocked_on_join\<close> tests only
  \<open>t == tasks[index].join_thread\<close>, which holds at every yield of \<open>B\<close>. Below, the main task
  waits for task 1, task 1 becomes current and calls \<open>task_sleep(5)\<close>: its scan selects the
  main task while task 1 is \<open>blocked_on_sleep\<close>, not \<open>exited\<close>.
\<close>

theorem joiner_selected_while_target_sleeps:
  "case run [Create 7, Wait 1] (scheduler_init (initial 0 [])) of
     Some (Inr s1) \<Rightarrow>
       current_task s1 = 1 \<and> status (tasks s1 0) = blocked_on_join \<and>
       join_thread (tasks s1 0) = 1 \<and>
       (case task_sleep 5 s1 of
          Some (Inr (c, s2)) \<Rightarrow>
            c = Return \<and> current_task s2 = 0 \<and> status (tasks s2 0) = is_running \<and>
            status (tasks s2 1) = blocked_on_sleep
        | _ \<Rightarrow> False)
   | _ \<Rightarrow> False"
  by code_simp

subsection \<open>C5: a handle that was never issued\<close>

text \<open>
  C5 says that \<open>task_wait(h)\<close> with a handle \<open>h\<close> outside the range of existing tasks fails
  at once with InvalidHandle. The code has no such check and no error return: it stores
  \<open>h\<close> as the join target and yields. As amended: for every \<open>h\<close> outside
  \<open>0 .. num_tasks - 1\<close> the call raises no error; it either never returns (no slot ever
  becomes eligible) or returns normally with another task selected, the caller's slot left
  \<open>blocked_on_join\<close> with the unissued handle recorded as its target.
\<close>

theorem task_wait_records_unissued_handle:
  assumes "sched_inv s" "\<not> (0 \<le> h \<and> h < num_tasks s)"
  shows "task_wait h s = None \<or>
    (\<exists>s'. task_wait h s = Some (Inr (Return, s')) \<and>
       current_task s' \<noteq> current_task s \<and>
       status (tasks s' (current_task s)) = blocked_on_join \<and>
       join_thread (tasks s' (current_task s)) = h)"
proof (cases "task_wait h s")
  case None
  then show ?thesis by simp
next
  case (Some r)
  let ?t = "current_task s"
  let ?s0 = "s\<lparr>tasks := (tasks s)(?t := (tasks s ?t)
      \<lparr>status := blocked_on_join, join_thread := h\<rparr>)\<rparr>"
  have t: "in_table ?t" using assms(1) by (rule sched_inv_in_table)
  have b: "0 < num_tasks ?s0" "num_tasks ?s0 \<le> MAX_TASKS" "0 \<le> ?t" "?t < num_tasks s"
    using assms(1) by (simp_all add: sched_inv_def)
  from Some t have "schedule ?t ?s0 = Some r" by (simp add: task_wait_def)
  from schedule_sound [OF t b(1,2) this] obtain k where
    k: "r = Inr (Return, grant (ring_slot ?s0 ?t k) (idle k ?s0))"
       "eligible ?t (ring_slot ?s0 ?t k) (idle k ?s0)"
    by blast
  let ?j = "ring_slot ?s0 ?t k"
  have "h \<noteq> ?t" using assms(2) b(3,4) by auto
  then have "\<not> eligible ?t ?t (idle k ?s0)"
    by (simp add: eligible_join)
  with k(2) have j: "?j \<noteq> ?t" by auto
  then have "tasks (grant ?j (idle k ?s0)) ?t = tasks ?s0 ?t"
    by (simp add: tasks_grant_other)
  with Some k(1) j show ?thesis by simp
qed

text \<open>With two tasks in the table, \<open>task_wait(7)\<close> by the main task returns normally: task 1
  is selected and slot 0 waits for handle 7.\<close>

theorem task_wait_unissued_handle_counterexample:
  "num_tasks (state_after [Create 1]) = 2 \<and>
   (case task_wait 7 (state_after [Create 1]) of
      Some (Inr (c, s')) \<Rightarrow>
        c = Return \<and> current_task s' = 1 \<and> status (tasks s' 1) = is_running \<and>
        status (tasks s' 0) = blocked_on_join \<and> join_thread (tasks s' 0) = 7
    | _ \<Rightarrow> False)"
  by code_simp

theorem task_wait_records_unissued_handle_witness:
  "sched_inv (state_after [Create 1]) \<and>
   \<not> (0 \<le> (7::int) \<and> 7 < num_tasks (state_after [Create 1])) \<and>
   (\<exists>s'. task_wait 7 (state_after [Create 1]) = Some (Inr (Return, s')) \<and>
       current_task s' \<noteq> current_task (state_after [Create 1]) \<and>
       status (tasks s' (current_task (state_after [Create 1]))) = blocked_on_join \<and>
       join_thread (tasks s' (current_task (state_after [Create 1]))) = 7)"
proof -
  let ?s = "state_after [Create 1]"
  have "case run [Create 1] (scheduler_init (initial 0 [])) of
      Some (Inr s') \<Rightarrow> True | _ \<Rightarrow> False"
    by code_simp
  then have inv: "sched_inv ?s" by (rule state_after_inv)
  have n: "num_tasks ?s = 2" by code_simp
  then have h: "\<not> (0 \<le> (7::int) \<and> 7 < num_tasks ?s)" by simp
  have "task_wait 7 ?s \<noteq> None" by code_simp
  with task_wait_records_unissued_handle [OF inv h] inv h show ?thesis by blast
qed

subsection \<open>C6: the ring scan selects the first eligible slot\<close>

text \<open>
  C6: for a caller \<open>t\<close> in the table and a task count within the table, \<open>schedule(t)\<close>
  returns exactly when the walk \<open>(t + 1) mod num_tasks\<close>, \<open>(t + 2) mod num_tasks\<close>, ... over
  the currently existing tasks meets an eligible slot, and the slot it selects is the first
  one that is eligible at the moment the walk visits it (one millisecond passes per slot
  passed over). Eligible slots further along the ring do not matter. That a pass of the
  loop selects a slot exactly when it is \<open>eligible\<close>, leaving the state \<open>grant\<close> describes, is
  lemma \<open>loop_body_eligible\<close>.
\<close>

theorem schedule_first_eligible_in_ring:
  assumes "in_table t" "0 < num_tasks s" "num_tasks s \<le> MAX_TASKS"
  shows "schedule t s = Some r \<longleftrightarrow>
    (\<exists>k. r = Inr (Return, grant (ring_slot s t k) (idle k s)) \<and>
         eligible t (ring_slot s t k) (idle k s) \<and>
         (\<forall>k'<k. \<not> eligible t (ring_slot s t k') (idle k' s)))"
  using assms schedule_sound [of t s r] schedule_first [of t s] by blast

text \<open>In \<open>ring_demo\<close> the walk of \<open>schedule(3)\<close> passes over slots 0 and 1 and selects slot
  2 at time 2, one millisecond before the sleeper in slot 0 would have been eligible.\<close>

lemma ring_demo_facts:
  "num_tasks ring_demo = 4" "clock ring_demo = 0" "keys ring_demo = []"
  "status (tasks ring_demo 0) = blocked_on_sleep" "wake_time (tasks ring_demo 0) = 3"
  "status (tasks ring_demo 1) = blocked_on_join" "join_thread (tasks ring_demo 1) = 9"
  "status (tasks ring_demo 2) = blocked_on_sleep" "wake_time (tasks ring_demo 2) = 0"
  "status (tasks ring_demo 3) = blocked_on_input"
  by (code_simp)+

theorem schedule_first_eligible_in_ring_witness:
  "in_table 3 \<and> 0 < num_tasks ring_demo \<and> num_tasks ring_demo \<le> MAX_TASKS \<and>
   schedule 3 ring_demo = Some (Inr (Return, grant 2 (idle 2 ring_demo))) \<and>
   current_task (grant 2 (idle 2 ring_demo)) = 2 \<and> clock (grant 2 (idle 2 ring_demo)) = 2"
proof -
  have h: "in_table 3" "0 < num_tasks ring_demo" "num_tasks ring_demo \<le> MAX_TASKS"
    by (simp_all add: in_table_def MAX_TASKS_def ring_demo_facts)
  have slots: "ring_slot ring_demo 3 0 = 0" "ring_slot ring_demo 3 (Suc 0) = 1" "ring_slot ring_demo 3 2 = 2"
    by (simp_all add: ring_slot_def ring_demo_facts)
  have e2: "eligible 3 (ring_slot ring_demo 3 2) (idle 2 ring_demo)"
    by (simp add: slots eligible_def ring_demo_facts)
  have e01: "\<forall>k'<2. \<not> eligible 3 (ring_slot ring_demo 3 k') (idle k' ring_demo)"
  proof (intro allI impI)
    fix k' :: nat assume "k' < 2"
    then have "k' = 0 \<or> k' = 1" by auto
    then show "\<not> eligible 3 (ring_slot ring_demo 3 k') (idle k' ring_demo)"
      by (auto simp: slots eligible_def ring_demo_facts status_codes time_ms_def word_le_nat_alt)
  qed
  have "\<exists>k. Inr (Return, grant 2 (idle 2 ring_demo)) =
          Inr (Return, grant (ring_slot ring_demo 3 k) (idle k ring_demo)) \<and>
        eligible 3 (ring_slot ring_demo 3 k) (idle k ring_demo) \<and>
        (\<forall>k'<k. \<not> eligible 3 (ring_slot ring_demo 3 k') (idle k' ring_demo))"
    using e2 e01 by (intro exI [of _ 2]) (simp add: slots)
  then have "schedule 3 ring_demo = Some (Inr (Return, grant 2 (idle 2 ring_demo)))"
    by (rule schedule_first_eligible_in_ring [OF h, THEN iffD2])
  with h show ?thesis by (simp add: ring_demo_facts)
qed

subsection \<open>C7: the value returned by task_readchar\<close>

text \<open>
  C7 says that the key consumed when a task blocked in \<open>task_readchar\<close> is selected is the
  value that task's \<open>task_readchar\<close> call returns. Because \<open>schedule\<close> always returns to its
  caller (see C1), \<open>task_readchar\<close> returns \<open>tasks[current_task].input\<close> of whichever slot
  the scan selected. Below, key 120 is waiting and task 1 is \<open>ready\<close> when the main task
  calls \<open>task_readchar\<close>: the call returns 0, the never-written input field of task 1, the
  key stays unread and slot 0 stays \<open>blocked_on_input\<close>. The key is consumed and stored in
  slot 0 only by the next yield (\<open>task_sleep(0)\<close>), which returns no value to anyone.
\<close>

theorem readchar_returns_without_reading:
  "case task_create 7 (scheduler_init (initial 0 [120])) of
     Inl f \<Rightarrow> False
   | Inr (h, s1) \<Rightarrow>
       (case task_readchar s1 of
          Some (Inr (v, s2)) \<Rightarrow>
            v = Some 0 \<and> keys s2 = [120] \<and> current_task s2 = 1 \<and>
            status (tasks s2 0) = blocked_on_input \<and>
            (case task_sleep 0 s2 of
               Some (Inr (c, s3)) \<Rightarrow>
                 c = Return \<and> current_task s3 = 0 \<and> input (tasks s3 0) = 120 \<and> keys s3 = []
             | _ \<Rightarrow> False)
        | _ \<Rightarrow> False)"
  by code_simp

subsection \<open>C8: sleeping until a deadline\<close>




subsection \<open>C9: self-join\<close>

text \<open>
  C9 says that a task \<open>t\<close> calling \<open>task_wait(t)\<close> with its own handle is selected by its
  own \<open>schedule(t)\<close> when the ring scan reaches its slot, so that a self-join returns to the
  caller within one turn of the ring instead of blocking forever. The first half holds, the
  conclusion does not: the scan stops at the first eligible slot, which need not be the
  caller's. As amended, for the running task \<open>t\<close> in a state that satisfies the invariant:
  \<^item> the scan of \<open>task_wait(t)\<close> ends within one turn: it passes over \<open>k < num_tasks\<close>
    slots, none of them eligible when visited, and selects slot \<open>(t + 1 + k) mod num_tasks\<close>;
  \<^item> the selected slot is \<open>t\<close> itself exactly when none of the other slots is eligible at
    the moment the scan visits it; the scan then reaches the slot of \<open>t\<close>, which is eligible
    because the yielding task equals the recorded join target; a selected slot other than
    \<open>t\<close> is one that is eligible for this yield;
  \<^item> when another slot is selected, the slot of \<open>t\<close> stays \<open>blocked_on_join\<close> on itself
    and \<open>t\<close> is not the current task after any later run of operations and outside
    events: in the table the self-join then blocks forever.
\<close>

theorem self_join_selects_caller_only_when_reached:
  assumes "sched_inv s"
  shows "(\<exists>c k s'. task_wait (current_task s) s = Some (Inr (c, s')) \<and>
            int k < num_tasks s \<and>
            current_task s' = ring_slot s (current_task s) k \<and>
            (\<forall>k'<k. \<not> eligible (current_task s) (ring_slot s (current_task s) k') (idle k' s)) \<and>
            (current_task s' \<noteq> current_task s \<longrightarrow>
               eligible (current_task s) (current_task s') (idle k s)) \<and>
            (current_task s' = current_task s \<longleftrightarrow>
               (\<forall>k'. int k' < num_tasks s - 1 \<longrightarrow>
                  \<not> eligible (current_task s) (ring_slot s (current_task s) k') (idle k' s)))) \<and>
         (\<forall>c s1 evs s2. task_wait (current_task s) s = Some (Inr (c, s1)) \<and>
            current_task s1 \<noteq> current_task s \<and> run evs s1 = Some (Inr s2) \<longrightarrow>
            status (tasks s2 (current_task s)) = blocked_on_join \<and>
            join_thread (tasks s2 (current_task s)) = current_task s \<and>
            current_task s2 \<noteq> current_task s)"
proof -
  let ?t = "current_task s"
  from self_join_scan [OF assms] obtain c k s' where
    r: "task_wait ?t s = Some (Inr (c, s'))"
    and k: "int k < num_tasks s" "current_task s' = ring_slot s ?t k"
      "\<forall>k'<k. \<not> eligible ?t (ring_slot s ?t k') (idle k' s)"
    and other: "current_task s' \<noteq> ?t \<longrightarrow>
      eligible ?t (current_task s') (idle k s) \<and> joins_itself ?t s'"
    and self: "current_task s' = ?t \<longleftrightarrow>
      (\<forall>k'. int k' < num_tasks s - 1 \<longrightarrow> \<not> eligible ?t (ring_slot s ?t k') (idle k' s))"
    by blast
  have scan: "\<exists>c k s'. task_wait ?t s = Some (Inr (c, s')) \<and>
      int k < num_tasks s \<and>
      current_task s' = ring_slot s ?t k \<and>
      (\<forall>k'<k. \<not> eligible ?t (ring_slot s ?t k') (idle k' s)) \<and>
      (current_task s' \<noteq> ?t \<longrightarrow> eligible ?t (current_task s') (idle k s)) \<and>
      (current_task s' = ?t \<longleftrightarrow>
         (\<forall>k'. int k' < num_tasks s - 1 \<longrightarrow>
            \<not> eligible ?t (ring_slot s ?t k') (idle k' s)))"
    apply (rule exI [of _ c], rule exI [of _ k], rule exI [of _ s'])
    using r k other self by blast
  have inv': "sched_inv s'" using assms r by (rule task_wait_inv)
  have forever: "\<forall>c s1 evs s2. task_wait ?t s = Some (Inr (c, s1)) \<and>
      current_task s1 \<noteq> ?t \<and> run evs s1 = Some (Inr s2) \<longrightarrow>
      status (tasks s2 ?t) = blocked_on_join \<and> join_thread (tasks s2 ?t) = ?t \<and>
      current_task s2 \<noteq> ?t"
  proof (intro allI impI)
    fix c1 s1 evs s2
    assume a: "task_wait ?t s = Some (Inr (c1, s1)) \<and>
      current_task s1 \<noteq> ?t \<and> run evs s1 = Some (Inr s2)"
    with r have eq: "s1 = s'" by simp
    with a other have ji: "joins_itself ?t s'" by simp
    from a eq have "run evs s' = Some (Inr s2)" by simp
    from joins_itself_run [OF inv' ji this] have
      j: "joins_itself ?t s2" and inv2: "sched_inv s2" by simp_all
    from inv2 have "status (tasks s2 (current_task s2)) = is_running"
      by (rule sched_inv_current_running)
    with j have "current_task s2 \<noteq> ?t"
      by (auto simp: joins_itself_def status_codes)
    with j show "status (tasks s2 ?t) = blocked_on_join \<and> join_thread (tasks s2 ?t) = ?t \<and>
      current_task s2 \<noteq> ?t"
      by (simp add: joins_itself_def)
  qed
  from scan forever show ?thesis by (rule conjI)
qed

text \<open>The main task creates task 1 and joins itself: the scan meets the \<open>ready\<close> task 1
  first, and after further operations slot 0 is still \<open>blocked_on_join\<close> on itself.\<close>

theorem self_join_blocks_when_other_task_eligible:
  "current_task (state_after [Create 7]) = 0 \<and>
   (case task_wait 0 (state_after [Create 7]) of
      Some (Inr (c, s1)) \<Rightarrow>
        current_task s1 = 1 \<and> status (tasks s1 0) = blocked_on_join \<and>
        join_thread (tasks s1 0) = 0 \<and>
        (case run [Sleep 3, Elapse 100, KeyPress 5, Readchar] s1 of
           Some (Inr s2) \<Rightarrow>
             current_task s2 = 1 \<and> status (tasks s2 0) = blocked_on_join \<and>
             join_thread (tasks s2 0) = 0
         | _ \<Rightarrow> False)
    | _ \<Rightarrow> False)"
  by code_simp

theorem self_join_selects_caller_only_when_reached_witness:
  "sched_inv (state_after [Create 7, Wait 5]) \<and>
   current_task (state_after [Create 7, Wait 5]) = 1 \<and>
   (\<exists>c s'. task_wait 1 (state_after [Create 7, Wait 5]) = Some (Inr (c, s')) \<and>
      current_task s' = 1) \<and>
   sched_inv (state_after [Create 7]) \<and>
   current_task (state_after [Create 7]) = 0 \<and>
   (\<exists>c s1 s2. task_wait 0 (state_after [Create 7]) = Some (Inr (c, s1)) \<and>
      current_task s1 \<noteq> 0 \<and>
      run [Sleep 3, Elapse 100, KeyPress 5, Readchar] s1 = Some (Inr s2) \<and>
      status (tasks s2 0) = blocked_on_join \<and> join_thread (tasks s2 0) = 0 \<and>
      current_task s2 \<noteq> 0)"
proof -
  let ?A = "state_after [Create 7, Wait 5]"
  let ?B = "state_after [Create 7]"
  let ?evs = "[Sleep 3, Elapse 100, KeyPress 5, Readchar]"
  have "case run [Create 7, Wait 5] (scheduler_init (initial 0 [])) of
      Some (Inr s') \<Rightarrow> True | _ \<Rightarrow> False"
    by code_simp
  then have A: "sched_inv ?A" by (rule state_after_inv)
  have "case run [Create 7] (scheduler_init (initial 0 [])) of
      Some (Inr s') \<Rightarrow> True | _ \<Rightarrow> False"
    by code_simp
  then have B: "sched_inv ?B" by (rule state_after_inv)
  have fA: "current_task ?A = 1" "num_tasks ?A = 2" "clock ?A = 0"
      "status (tasks ?A 0) = blocked_on_join" "join_thread (tasks ?A 0) = 5"
    by code_simp+
  have fB: "current_task ?B = 0" by code_simp
  have none: "\<forall>k'. int k' < num_tasks ?A - 1 \<longrightarrow>
      \<not> eligible (current_task ?A) (ring_slot ?A (current_task ?A) k') (idle k' ?A)"
  proof (intro allI impI)
    fix k' :: nat assume "int k' < num_tasks ?A - 1"
    then have "k' = 0" using fA by simp
    then show "\<not> eligible (current_task ?A) (ring_slot ?A (current_task ?A) k') (idle k' ?A)"
      by (simp add: fA ring_slot_def eligible_join)
  qed
  from self_join_selects_caller_only_when_reached [OF A, THEN conjunct1] none
  have e1: "\<exists>c s'. task_wait 1 ?A = Some (Inr (c, s')) \<and> current_task s' = 1"
    unfolding fA(1) by blast
  have "case task_wait 0 ?B of Some (Inr (c, s1)) \<Rightarrow>
      (case run ?evs s1 of Some (Inr s2) \<Rightarrow> True | _ \<Rightarrow> False) | _ \<Rightarrow> False"
    by code_simp
  then have "\<exists>c s1 s2. task_wait 0 ?B = Some (Inr (c, s1)) \<and> run ?evs s1 = Some (Inr s2)"
    by (rule call_then_run_completes)
  then obtain c s1 s2 where
    r: "task_wait 0 ?B = Some (Inr (c, s1))" "run ?evs s1 = Some (Inr s2)"
    by blast
  have "case task_wait 0 ?B of Some (Inr (c, s1)) \<Rightarrow> current_task s1 \<noteq> 0 | _ \<Rightarrow> False"
    by code_simp
  with r(1) have ne: "current_task s1 \<noteq> 0" by simp
  have "task_wait (current_task ?B) ?B = Some (Inr (c, s1)) \<and>
      current_task s1 \<noteq> current_task ?B \<and> run ?evs s1 = Some (Inr s2)"
    using r ne by (simp add: fB)
  note self_join_selects_caller_only_when_reached
    [OF B, THEN conjunct2, rule_format, OF this]
  then have e2: "\<exists>c s1 s2. task_wait 0 ?B = Some (Inr (c, s1)) \<and>
      current_task s1 \<noteq> 0 \<and> run ?evs s1 = Some (Inr s2) \<and>
      status (tasks s2 0) = blocked_on_join \<and> join_thread (tasks s2 0) = 0 \<and>
      current_task s2 \<noteq> 0"
    using r ne unfolding fB by blast
  show ?thesis
    using A fA(1) e1 B fB e2 by (intro conjI)
qed

subsection \<open>C10: joining a task that has already exited\<close>

text \<open>
  C10: let task \<open>h\<close> have status \<open>exited\<close> and let the running task call \<open>task_wait(h)\<close>.
  If the call's scan selects some task at all, then after every further run of operations
  and outside events the caller's slot is still \<open>blocked_on_join\<close> on \<open>h\<close>, the caller is
  not the current task, and \<open>h\<close> is still \<open>exited\<close>: no scan ever selects the caller again,
  because a slot joining \<open>h\<close> is selected only by a yield of \<open>h\<close>, and an exited task is
  never current again.
\<close>

theorem join_exited_task_never_selected:
  assumes "sched_inv s" "0 \<le> h" "h < num_tasks s" "status (tasks s h) = exited"
    and "task_wait h s = Some (Inr (c, s1))"
    and "run evs s1 = Some (Inr s2)"
  shows "status (tasks s2 (current_task s)) = blocked_on_join \<and>
         join_thread (tasks s2 (current_task s)) = h \<and>
         current_task s2 \<noteq> current_task s \<and>
         status (tasks s2 h) = exited"
proof -
  from task_wait_exited [OF assms(1-5)] have
    "waits_on_exited (current_task s) h s1" "sched_inv s1" by simp_all
  from waits_on_exited_run [OF this(2,1) assms(6)] have
    w: "waits_on_exited (current_task s) h s2" and inv: "sched_inv s2" by simp_all
  from inv have "status (tasks s2 (current_task s2)) = is_running"
    by (rule sched_inv_current_running)
  with w have "current_task s2 \<noteq> current_task s"
    by (auto simp: waits_on_exited_def status_codes)
  with w show ?thesis by (simp add: waits_on_exited_def)
qed

theorem join_exited_task_never_selected_witness:
  "sched_inv (state_after [Create 1, Create 2, Create 3, Wait 1, Exit]) \<and>
   current_task (state_after [Create 1, Create 2, Create 3, Wait 1, Exit]) = 2 \<and>
   (0::int) \<le> 1 \<and> 1 < num_tasks (state_after [Create 1, Create 2, Create 3, Wait 1, Exit]) \<and>
   status (tasks (state_after [Create 1, Create 2, Create 3, Wait 1, Exit]) 1) = exited \<and>
   (\<exists>c s1 s2. task_wait 1 (state_after [Create 1, Create 2, Create 3, Wait 1, Exit]) = Some (Inr (c, s1)) \<and>
      run [Sleep 2, KeyPress 5, Readchar, Create 9, Elapse 4] s1 = Some (Inr s2) \<and>
      status (tasks s2 2) = blocked_on_join \<and> join_thread (tasks s2 2) = 1 \<and>
      current_task s2 \<noteq> 2 \<and> status (tasks s2 1) = exited)"
proof -
  let ?s = "state_after [Create 1, Create 2, Create 3, Wait 1, Exit]"
  let ?evs = "[Sleep 2, KeyPress 5, Readchar, Create 9, Elapse 4]"
  have "case run [Create 1, Create 2, Create 3, Wait 1, Exit] (scheduler_init (initial 0 [])) of
      Some (Inr s') \<Rightarrow> True | _ \<Rightarrow> False"
    by code_simp
  then have inv: "sched_inv ?s" by (rule state_after_inv)
  have f: "current_task ?s = 2" "num_tasks ?s = 4" "status (tasks ?s 1) = exited"
    by code_simp+
  have "case task_wait 1 ?s of Some (Inr (c, s1)) \<Rightarrow>
      (case run ?evs s1 of Some (Inr s2) \<Rightarrow> True | _ \<Rightarrow> False) | _ \<Rightarrow> False"
    by code_simp
  then have "\<exists>c s1 s2. task_wait 1 ?s = Some (Inr (c, s1)) \<and> run ?evs s1 = Some (Inr s2)"
    by (rule call_then_run_completes)
  then obtain c s1 s2 where
    r: "task_wait 1 ?s = Some (Inr (c, s1))" "run ?evs s1 = Some (Inr s2)"
    by blast
  from join_exited_task_never_selected [OF inv _ _ f(3) r] f r inv show ?thesis
    by auto
qed

end
